theory Spec2Isabelle
  imports Complex_Main "HOL-Library.Multiset"
begin

section \<open>The operator chain of \<^verbatim>\<open>utils/chain_operators.py\<close>\<close>

text \<open>
  The tiled-inference pipeline is a chain of Python objects. Each object holds a reference
  \<^verbatim>\<open>next_operator\<close> to the object it calls, so a pipeline is an object graph: objects live
  in a heap, addressed by natural numbers, and a reference is an address. Python lets a
  reference be reassigned after construction, so the heap may hold a cycle; evaluation
  therefore takes fuel, and \<open>None\<close> is the run that does not return within it.

  Values that flow through a pipeline are dynamically typed. The combinators only ever
  look at their shape (is it iterable, what are its items), so one universal type of
  values is enough for them.
\<close>

datatype error =
    NotEnoughBoxes
  | ZeroDivisionError
  | KeyError
  | TypeError
  | NotImplementedError
  | NonFinite

datatype val = VNone | VAtom int | VTuple "val list" | VList "val list"

text \<open>
  Ghost state, not in the source: a log of the calls of \<^verbatim>\<open>forward\<close> and \<^verbatim>\<open>backward\<close> made by
  \<^verbatim>\<open>ChainOperator.__call__\<close>. \<open>Fwd k r a\<close> records that invocation number \<open>k\<close>, of the object
  at address \<open>r\<close>, got the context \<open>a\<close> back from its \<^verbatim>\<open>forward\<close>; \<open>Bwd k r a\<close> that this
  invocation passed \<open>a\<close> to its \<^verbatim>\<open>backward\<close>. Invocation numbers come from a counter.
\<close>

datatype event = Fwd nat nat val | Bwd nat nat val

text \<open>
  The mutable state of a run: the attribute \<^verbatim>\<open>self.data\<close> of every \<^verbatim>\<open>BranchingOperator\<close>
  (\<^verbatim>\<open>None\<close> after construction), and the ghost log with its counter.
\<close>

record pstate =
  data_field :: "nat \<Rightarrow> val"
  trace :: "event list"
  next_id :: nat

text \<open>
  The classes. \<open>ChainOperator fw bw nxt\<close> is any stage whose \<^verbatim>\<open>forward\<close> and \<^verbatim>\<open>backward\<close> do not
  touch instance state (every stage of the file but \<^verbatim>\<open>BranchingOperator\<close>); the base class
  itself is the stage whose two methods return \<open>Inl NotImplementedError\<close>.
  \<open>BranchingOperator nxt br\<close> holds \<^verbatim>\<open>next_operator\<close> and \<^verbatim>\<open>branch_operator\<close>.
\<close>

datatype operator =
    FinalOperator
  | ChainOperator "val \<Rightarrow> error + val \<times> val" "val \<Rightarrow> val \<Rightarrow> error + val" nat
  | SplittingOperator nat
  | BatchingOperator nat int
  | BranchingOperator nat nat

type_synonym heap = "nat \<Rightarrow> operator option"

text \<open>\<^verbatim>\<open>for item in data\<close> and \<^verbatim>\<open>results += ...\<close>: lists and tuples are iterable.\<close>

fun iter :: "val \<Rightarrow> error + val list" where
  "iter (VList xs) = Inr xs"
| "iter (VTuple xs) = Inr xs"
| "iter _ = Inl TypeError"

text \<open>
  Modelled from the spec: \<^verbatim>\<open>utils.misc.split_sequence\<close> is imported by the file and is not
  part of the sources. Section 4.3: the items are partitioned into contiguous groups of
  \<open>B\<close> items, in order, the last group possibly smaller. The spec speaks of a sequence and
  of \<open>B \<ge> 1\<close> only; outside that (\<open>B < 1\<close>, or a value that is not a list) the model has no
  result (\<open>None\<close>).
\<close>

fun chop :: "nat \<Rightarrow> 'a list \<Rightarrow> 'a list list" where
  "chop n [] = []"
| "chop n (x # xs) = (if n = 0 then [] else take n (x # xs) # chop n (drop n (x # xs)))"

text \<open>Modelled from the spec: \<^verbatim>\<open>split_sequence(data, batch_size)\<close> as section 4.3 has it, on the
  list of items and for \<open>B \<ge> 1\<close>.\<close>

definition split_sequence :: "val \<Rightarrow> int \<Rightarrow> val list option" where
  "split_sequence seq n =
     (if n < 1 then None
      else case seq of VList xs \<Rightarrow> Some (map VList (chop (nat n) xs)) | _ \<Rightarrow> None)"

text \<open>
  \<open>call n H r d s\<close> is \<^verbatim>\<open>op(d)\<close> for the object \<open>op\<close> at address \<open>r\<close> of the heap \<open>H\<close>, from
  state \<open>s\<close>, with fuel \<open>n\<close>. An exception is \<open>Some (Inl e)\<close> and ends the run. Calling
  an address that holds no object is calling \<^verbatim>\<open>None\<close>: a \<^verbatim>\<open>TypeError\<close>. The result \<open>None\<close> is
  the run that has no result here: it needs more fuel, or it reaches a \<^verbatim>\<open>split_sequence\<close>
  outside of what the spec defines.

  \<^item> \<^verbatim>\<open>FinalOperator.__call__\<close> returns its argument.
  \<^item> \<^verbatim>\<open>ChainOperator.__call__\<close>: \<^verbatim>\<open>data, addition = self.forward(data)\<close>, then
    \<^verbatim>\<open>data = self.next_operator(data)\<close>, then \<^verbatim>\<open>return self.backward(data, addition)\<close>.
  \<^item> \<^verbatim>\<open>BranchingOperator\<close> inherits that \<^verbatim>\<open>__call__\<close>; its \<^verbatim>\<open>forward\<close> stores the argument in
    \<^verbatim>\<open>self.data\<close> and returns \<^verbatim>\<open>(data, None)\<close>; its \<^verbatim>\<open>backward\<close> returns
    \<^verbatim>\<open>self.branch_operator((self.data, data))\<close>, reading the attribute at that moment.
  \<^item> \<^verbatim>\<open>SplittingOperator.__call__\<close> appends \<^verbatim>\<open>self.next_operator(item)\<close> for every item.
  \<^item> \<^verbatim>\<open>BatchingOperator.__call__\<close> extends the results by \<^verbatim>\<open>self.next_operator(batch)\<close> for
    every batch of \<^verbatim>\<open>split_sequence(data, self.batch_size)\<close>.

  \<open>call_seq n H nxt ext items s\<close> is the loop of the last two: \<open>ext\<close> tells whether a
  result is spliced in (\<^verbatim>\<open>+=\<close>, which iterates it) or appended as one item.
\<close>

fun call :: "nat \<Rightarrow> heap \<Rightarrow> nat \<Rightarrow> val \<Rightarrow> pstate \<Rightarrow> (error + val \<times> pstate) option"
and call_seq :: "nat \<Rightarrow> heap \<Rightarrow> nat \<Rightarrow> bool \<Rightarrow> val list \<Rightarrow> pstate \<Rightarrow> (error + val list \<times> pstate) option"
where
  "call 0 H r d s = None"
| "call (Suc n) H r d s =
    (case H r of
       None \<Rightarrow> Some (Inl TypeError)
     | Some FinalOperator \<Rightarrow> Some (Inr (d, s))
     | Some (ChainOperator fw bw nxt) \<Rightarrow>
         (case fw d of
            Inl e \<Rightarrow> Some (Inl e)
          | Inr (d1, a) \<Rightarrow>
              (case call n H nxt d1
                      (s\<lparr>trace := trace s @ [Fwd (next_id s) r a], next_id := Suc (next_id s)\<rparr>) of
                 None \<Rightarrow> None
               | Some (Inl e) \<Rightarrow> Some (Inl e)
               | Some (Inr (d2, s2)) \<Rightarrow>
                   (case bw d2 a of
                      Inl e \<Rightarrow> Some (Inl e)
                    | Inr d3 \<Rightarrow> Some (Inr (d3, s2\<lparr>trace := trace s2 @ [Bwd (next_id s) r a]\<rparr>)))))
     | Some (SplittingOperator nxt) \<Rightarrow>
         (case iter d of
            Inl e \<Rightarrow> Some (Inl e)
          | Inr items \<Rightarrow>
              (case call_seq n H nxt False items s of
                 None \<Rightarrow> None
               | Some (Inl e) \<Rightarrow> Some (Inl e)
               | Some (Inr (rs, s')) \<Rightarrow> Some (Inr (VList rs, s'))))
     | Some (BatchingOperator nxt b) \<Rightarrow>
         (case split_sequence d b of
            None \<Rightarrow> None
          | Some batches \<Rightarrow>
              (case call_seq n H nxt True batches s of
                 None \<Rightarrow> None
               | Some (Inl e) \<Rightarrow> Some (Inl e)
               | Some (Inr (rs, s')) \<Rightarrow> Some (Inr (VList rs, s'))))
     | Some (BranchingOperator nxt br) \<Rightarrow>
         (case call n H nxt d
                 (s\<lparr>data_field := (data_field s)(r := d),
                    trace := trace s @ [Fwd (next_id s) r VNone],
                    next_id := Suc (next_id s)\<rparr>) of
            None \<Rightarrow> None
          | Some (Inl e) \<Rightarrow> Some (Inl e)
          | Some (Inr (d2, s2)) \<Rightarrow>
              call n H br (VTuple [data_field s2 r, d2])
                (s2\<lparr>trace := trace s2 @ [Bwd (next_id s) r VNone]\<rparr>)))"
| "call_seq n H nxt ext [] s = Some (Inr ([], s))"
| "call_seq n H nxt ext (x # xs) s =
    (case call n H nxt x s of
       None \<Rightarrow> None
     | Some (Inl e) \<Rightarrow> Some (Inl e)
     | Some (Inr (r, s1)) \<Rightarrow>
         (case (if ext then iter r else Inr [r]) of
            Inl e \<Rightarrow> Some (Inl e)
          | Inr new \<Rightarrow>
              (case call_seq n H nxt ext xs s1 of
                 None \<Rightarrow> None
               | Some (Inl e) \<Rightarrow> Some (Inl e)
               | Some (Inr (rs, s2)) \<Rightarrow> Some (Inr (new @ rs, s2)))))"

text \<open>The state before a run: no \<^verbatim>\<open>self.data\<close> assigned yet, an empty log.\<close>

definition fresh :: pstate where
  "fresh = \<lparr>data_field = (\<lambda>_. VNone), trace = [], next_id = 0\<rparr>"

subsection \<open>Reading the log\<close>



fun bwd_ids :: "event list \<Rightarrow> nat list" where
  "bwd_ids [] = []"
| "bwd_ids (Fwd k r a # es) = bwd_ids es"
| "bwd_ids (Bwd k r a # es) = k # bwd_ids es"

text \<open>The objects whose \<^verbatim>\<open>forward\<close> ran, in order.\<close>

fun fwd_objs :: "event list \<Rightarrow> nat list" where
  "fwd_objs [] = []"
| "fwd_objs (Fwd k r a # es) = r # fwd_objs es"
| "fwd_objs (Bwd k r a # es) = fwd_objs es"






subsection \<open>One invocation of a \<^verbatim>\<open>BranchingOperator\<close>\<close>

text \<open>What a run added to the log.\<close>

definition added :: "pstate \<Rightarrow> pstate \<Rightarrow> event list" where
  "added s s' = drop (length (trace s)) (trace s')"

text \<open>
  The state in which the \<^verbatim>\<open>BranchingOperator\<close> at address \<open>r\<close>, called on \<open>d\<close> in state
  \<open>s\<close>, calls its \<^verbatim>\<open>next_operator\<close> (after its \<^verbatim>\<open>forward\<close>), and the state in which it calls
  its \<^verbatim>\<open>branch_operator\<close> when the downstream run ended in \<open>s2\<close>.
\<close>

definition entered :: "nat \<Rightarrow> val \<Rightarrow> pstate \<Rightarrow> pstate" where
  "entered r d s =
     s\<lparr>data_field := (data_field s)(r := d),
       trace := trace s @ [Fwd (next_id s) r VNone],
       next_id := Suc (next_id s)\<rparr>"

definition left :: "nat \<Rightarrow> pstate \<Rightarrow> pstate \<Rightarrow> pstate" where
  "left r s s2 = s2\<lparr>trace := trace s2 @ [Bwd (next_id s) r VNone]\<rparr>"

text \<open>
  The invocation of the \<^verbatim>\<open>BranchingOperator\<close> at \<open>r\<close> on input \<open>d\<close> hands its
  \<^verbatim>\<open>branch_operator\<close> the pair of its own input and the downstream result; it is said of
  invocations whose downstream run completes.
\<close>

definition joins_saved_input :: "nat \<Rightarrow> heap \<Rightarrow> nat \<Rightarrow> val \<Rightarrow> pstate \<Rightarrow> bool" where
  "joins_saved_input n H r d s =
     (case H r of
        Some (BranchingOperator nxt br) \<Rightarrow>
          (case call n H nxt d (entered r d s) of
             Some (Inr (d2, s2)) \<Rightarrow>
               call (Suc n) H r d s = call n H br (VTuple [d, d2]) (left r s s2)
           | _ \<Rightarrow> True)
      | _ \<Rightarrow> True)"

text \<open>The downstream run of that invocation ran \<^verbatim>\<open>forward\<close> of the same object again.\<close>

definition reentered :: "nat \<Rightarrow> heap \<Rightarrow> nat \<Rightarrow> val \<Rightarrow> pstate \<Rightarrow> bool" where
  "reentered n H r d s =
     (case H r of
        Some (BranchingOperator nxt br) \<Rightarrow>
          (case call n H nxt d (entered r d s) of
             Some (Inr (d2, s2)) \<Rightarrow> r \<in> set (fwd_objs (added (entered r d s) s2))
           | _ \<Rightarrow> False)
      | _ \<Rightarrow> False)"

text \<open>A run changes \<^verbatim>\<open>self.data\<close> only of objects whose \<^verbatim>\<open>forward\<close> it ran.\<close>

definition frame_ok :: "pstate \<Rightarrow> pstate \<Rightarrow> bool" where
  "frame_ok s s' =
     (\<exists>tr. trace s' = trace s @ tr \<and>
           (\<forall>x. x \<notin> set (fwd_objs tr) \<longrightarrow> data_field s' x = data_field s x))"

text \<open>
  A heap built by the constructors alone is acyclic: every object is built after the
  objects it refers to, so the order of construction is a rank that every reference
  decreases. \<open>below rk c s s'\<close>: the run from \<open>s\<close> to \<open>s'\<close> only ran objects of rank at most \<open>c\<close>.
\<close>

definition ranked :: "heap \<Rightarrow> (nat \<Rightarrow> nat) \<Rightarrow> bool" where
  "ranked H rk =
     (\<forall>r. case H r of
            None \<Rightarrow> True
          | Some FinalOperator \<Rightarrow> True
          | Some (ChainOperator fw bw nxt) \<Rightarrow> rk nxt < rk r
          | Some (SplittingOperator nxt) \<Rightarrow> rk nxt < rk r
          | Some (BatchingOperator nxt b) \<Rightarrow> rk nxt < rk r
          | Some (BranchingOperator nxt br) \<Rightarrow> rk nxt < rk r \<and> rk br < rk r)"

definition below :: "(nat \<Rightarrow> nat) \<Rightarrow> nat \<Rightarrow> pstate \<Rightarrow> pstate \<Rightarrow> bool" where
  "below rk c s s' =
     (\<exists>tr. trace s' = trace s @ tr \<and> (\<forall>x \<in> set (fwd_objs tr). rk x \<le> c))"

text \<open>
  Two heaps. In \<open>branch_heap\<close> a \<^verbatim>\<open>SplittingOperator\<close> calls one \<^verbatim>\<open>BranchingOperator\<close> once per
  item. In \<open>loop_heap\<close> the \<^verbatim>\<open>next_operator\<close> of the \<^verbatim>\<open>SplittingOperator\<close> was assigned after
  construction and is the \<^verbatim>\<open>BranchingOperator\<close> that calls it:
  \<^verbatim>\<open>b = BranchingOperator(SplittingOperator(None), FinalOperator()); b.next_operator.next_operator = b\<close>.
\<close>

definition branch_heap :: heap where
  "branch_heap = [0 \<mapsto> SplittingOperator 1, 1 \<mapsto> BranchingOperator 2 3,
                  2 \<mapsto> ChainOperator (\<lambda>d. Inr (VList [d], VNone)) (\<lambda>d a. Inr d) 3,
                  3 \<mapsto> FinalOperator]"

definition loop_heap :: heap where
  "loop_heap = [0 \<mapsto> BranchingOperator 1 2, 1 \<mapsto> SplittingOperator 0, 2 \<mapsto> FinalOperator]"

text \<open>A state left by an earlier invocation of object 1, on the input 7.\<close>

definition used :: pstate where
  "used = \<lparr>data_field = (\<lambda>_. VNone)(1 := VAtom 7), trace = [], next_id = 4\<rparr>"


text \<open>A \<^verbatim>\<open>BatchingOperator\<close> of batch size 2 over a stage that, like the detection stages,
  returns one result per item of the list it is given.\<close>

definition detect :: operator where
  "detect = ChainOperator
     (\<lambda>d. case d of VList xs \<Rightarrow> Inr (VList (map (\<lambda>x. VTuple [x]) xs), VNone) | _ \<Rightarrow> Inl TypeError)
     (\<lambda>d a. Inr d) 2"

definition batch_heap :: heap where
  "batch_heap = [0 \<mapsto> BatchingOperator 1 2, 1 \<mapsto> detect, 2 \<mapsto> FinalOperator]"
section \<open>The stages: images, boxes and predictions\<close>


record box =
  xmin :: real
  ymin :: real
  xmax :: real
  ymax :: real

record prediction =
  boxes :: "box list"
  labels :: "int list"
  scores :: "real list"
  box_height :: "real option"

text \<open>\<^verbatim>\<open>a / b\<close> on Python numbers, and \<^verbatim>\<open>int(x)\<close>, which truncates towards zero.\<close>

definition py_div :: "real \<Rightarrow> real \<Rightarrow> error + real" where
  "py_div a b = (if b = 0 then Inl ZeroDivisionError else Inr (a / b))"




text \<open>\<^verbatim>\<open>t.mean()\<close> of a one-dimensional tensor, and \<^verbatim>\<open>t /= f\<close> on an entry of a tensor.\<close>

definition tensor_mean :: "real list \<Rightarrow> error + real" where
  "tensor_mean xs = (if xs = [] then Inl NonFinite else Inr (sum_list xs / real (length xs)))"


text \<open>Both \<^verbatim>\<open>LongRectangleCropOperator\<close> and \<^verbatim>\<open>SplitRegionOperator\<close> store a
  \<^verbatim>\<open>merge_iou_threshold\<close>.\<close>

record merging =
  merge_iou_threshold :: real

subsection \<open>\<^verbatim>\<open>BoxHeightPredictionOperator\<close>\<close>

text \<open>
  \<^verbatim>\<open>backward\<close>: \<^verbatim>\<open>if len(boxes) < self.min_boxes_count: raise NotEnoughBoxes()\<close>, then
  \<^verbatim>\<open>prediction['box_height'] = (boxes[:, 3] - boxes[:, 1]).mean()\<close>. The context of this
  stage is \<^verbatim>\<open>None\<close>.
\<close>

record BoxHeightPredictionOperator =
  min_boxes_count :: int

definition BoxHeightPredictionOperator_backward ::
  "BoxHeightPredictionOperator \<Rightarrow> prediction \<Rightarrow> unit \<Rightarrow> error + prediction" where
  "BoxHeightPredictionOperator_backward self prediction addition =
     (if int (length (boxes prediction)) < min_boxes_count self then Inl NotEnoughBoxes
      else (case tensor_mean (map (\<lambda>b. ymax b - ymin b) (boxes prediction)) of
              Inl e \<Rightarrow> Inl e
            | Inr avg_box_height \<Rightarrow> Inr (prediction\<lparr>box_height := Some avg_box_height\<rparr>)))"

subsection \<open>\<^verbatim>\<open>ResizingImageOperator\<close>\<close>





subsection \<open>\<^verbatim>\<open>ImgRescaleOperator\<close>\<close>



subsection \<open>\<^verbatim>\<open>LongRectangleCropOperator\<close>\<close>

text \<open>
  \<^verbatim>\<open>backward\<close> collects \<^verbatim>\<open>predictions['box_height']\<close> over
  \<^verbatim>\<open>zip(data, all_start_points)\<close>, which stops at the shorter of the two, and returns
  \<^verbatim>\<open>sum(box_heights) / len(box_heights)\<close>.
\<close>

record LongRectangleCropOperator = merging +
  ratio_threshold :: real
  split_at :: real

fun zipped_box_heights :: "prediction list \<Rightarrow> (int \<times> int) list \<Rightarrow> error + real list" where
  "zipped_box_heights (p # ps) (sp # sps) =
     (case box_height p of
        None \<Rightarrow> Inl KeyError
      | Some h \<Rightarrow>
          (case zipped_box_heights ps sps of
             Inl e \<Rightarrow> Inl e
           | Inr hs \<Rightarrow> Inr (h # hs)))"
| "zipped_box_heights _ _ = Inr []"

definition LongRectangleCropOperator_backward ::
  "LongRectangleCropOperator \<Rightarrow> prediction list \<Rightarrow> (int \<times> int) list \<Rightarrow> error + real" where
  "LongRectangleCropOperator_backward self data all_start_points =
     (case zipped_box_heights data all_start_points of
        Inl e \<Rightarrow> Inl e
      | Inr box_heights \<Rightarrow> py_div (sum_list box_heights) (real (length box_heights)))"

subsection \<open>\<^verbatim>\<open>SplitRegionOperator\<close>\<close>

text \<open>
  \<^verbatim>\<open>split_region\<close>: per dimension \<^verbatim>\<open>n = d / size\<close>, then
  \<^verbatim>\<open>math.ceil(n if n < 1 else n + 0.5)\<close>; the rows, from the height, first.
\<close>

record SplitRegionOperator = merging +
  image_size :: int







text \<open>
  Modelled from the spec: \<^verbatim>\<open>utils.transforms.shift_coordinates\<close> is imported by the file and
  is not part of the sources. Section 4.5: shifting the boxes by the offset of a child
  frame inside its parent (the offset of the original content inside the padded image,
  the offset of the pasted image inside the canvas) restores the parent's content frame,
  and shifting by minus the offset of a tile leads from the tile to the canvas: a shift by
  \<open>(dx, dy)\<close> takes \<open>(dx, dy)\<close> off every corner.
\<close>

definition shift_coordinates :: "box list \<Rightarrow> real \<Rightarrow> real \<Rightarrow> box list" where
  "shift_coordinates bs dx dy =
     map (\<lambda>b. \<lparr>xmin = xmin b - dx, ymin = ymin b - dy, xmax = xmax b - dx, ymax = ymax b - dy\<rparr>) bs"

text \<open>
  Modelled from the spec: \<^verbatim>\<open>utils.transforms.merge_prediction\<close> is imported by the file and is
  not part of the sources. Section 4.7 and the glossary: the IoU of two boxes is the area
  of their overlap over the area of their union; every box of one set is compared with
  every box of the other, and where the IoU exceeds the threshold the two are one
  detection, of which the one with the higher score is kept, with its label and score;
  on equal scores the one met first, that of the first set, is kept. The result is the
  first set's survivors followed by the second's.
\<close>

definition area :: "box \<Rightarrow> real" where
  "area b = (xmax b - xmin b) * (ymax b - ymin b)"

text \<open>Modelled from the spec: the area of the overlap of two boxes (glossary, IoU), part of
  the absent \<^verbatim>\<open>merge_prediction\<close>.\<close>

definition intersection :: "box \<Rightarrow> box \<Rightarrow> real" where
  "intersection a b =
     max 0 (min (xmax a) (xmax b) - max (xmin a) (xmin b)) *
     max 0 (min (ymax a) (ymax b) - max (ymin a) (ymin b))"

text \<open>Modelled from the spec: the IoU of the two boxes exceeds the threshold (section 4.7);
  two boxes whose union has no area have no IoU and are not duplicates.\<close>

definition iou_exceeds :: "real \<Rightarrow> box \<Rightarrow> box \<Rightarrow> bool" where
  "iou_exceeds thr a b =
     (let inter = intersection a b; union = area a + area b - inter
      in union \<noteq> 0 \<and> thr < inter / union)"

text \<open>Modelled from the spec: a detection is a box with its label and its score, the three
  parallel sequences of section 3 read side by side.\<close>

type_synonym detection = "box \<times> int \<times> real"

text \<open>Modelled from the spec: the detections of a prediction, in order.\<close>

definition detections :: "prediction \<Rightarrow> detection list" where
  "detections p = zip (boxes p) (zip (labels p) (scores p))"

text \<open>Modelled from the spec: the score of a detection.\<close>

definition score :: "detection \<Rightarrow> real" where
  "score d = snd (snd d)"

text \<open>Modelled from the spec: a detection of the first set is dropped when a duplicate in the
  second set has a higher score; one of the second set when a duplicate in the first set
  has a score at least as high (section 4.7).\<close>

definition survives_first :: "real \<Rightarrow> detection list \<Rightarrow> detection \<Rightarrow> bool" where
  "survives_first thr others d =
     (\<not> list_ex (\<lambda>e. iou_exceeds thr (fst d) (fst e) \<and> score d < score e) others)"

text \<open>Modelled from the spec: the same for a detection of the second set; on equal scores it
  is the one that goes.\<close>

definition survives_second :: "real \<Rightarrow> detection list \<Rightarrow> detection \<Rightarrow> bool" where
  "survives_second thr others d =
     (\<not> list_ex (\<lambda>e. iou_exceeds thr (fst e) (fst d) \<and> score d \<le> score e) others)"

text \<open>Modelled from the spec: the merge of section 4.7, on the keys \<^verbatim>\<open>boxes\<close>, \<^verbatim>\<open>labels\<close> and
  \<^verbatim>\<open>scores\<close>; every other key is that of the first set.\<close>

definition merge_prediction :: "prediction \<Rightarrow> prediction \<Rightarrow> real \<Rightarrow> prediction" where
  "merge_prediction predictions_1 predictions_2 iou_threshold =
     (let kept = filter (survives_first iou_threshold (detections predictions_2)) (detections predictions_1) @
                 filter (survives_second iou_threshold (detections predictions_1)) (detections predictions_2)
      in predictions_1\<lparr>boxes := map fst kept,
                       labels := map (fst \<circ> snd) kept,
                       scores := map (snd \<circ> snd) kept\<rparr>)"

text \<open>
  \<^verbatim>\<open>backward\<close>. The loop over \<^verbatim>\<open>zip(data, all_start_points)\<close> shifts the boxes of each tile by
  \<^verbatim>\<open>(-start_points[0], -start_points[1])\<close> and merges the tile into \<^verbatim>\<open>all_predictions\<close>,
  which starts as \<^verbatim>\<open>None\<close> and is the first tile after the first round. The boxes of the
  result are shifted by \<^verbatim>\<open>start_point\<close>; with no tile at all, \<^verbatim>\<open>all_predictions\<close> is still
  \<^verbatim>\<open>None\<close> there and subscripting it raises \<^verbatim>\<open>TypeError\<close>.
\<close>

definition to_canvas :: "prediction \<Rightarrow> int \<times> int \<Rightarrow> prediction" where
  "to_canvas predictions start_points =
     predictions\<lparr>boxes := shift_coordinates (boxes predictions)
                             (- real_of_int (fst start_points)) (- real_of_int (snd start_points))\<rparr>"

fun merge_tiles ::
  "SplitRegionOperator \<Rightarrow> prediction option \<Rightarrow> prediction list \<Rightarrow> (int \<times> int) list \<Rightarrow> prediction option"
where
  "merge_tiles self all_predictions (predictions # data) (start_points # all_start_points) =
     merge_tiles self
       (Some (case all_predictions of
                None \<Rightarrow> to_canvas predictions start_points
              | Some acc \<Rightarrow>
                  merge_prediction acc (to_canvas predictions start_points) (merge_iou_threshold self)))
       data all_start_points"
| "merge_tiles self all_predictions _ _ = all_predictions"

definition SplitRegionOperator_backward ::
  "SplitRegionOperator \<Rightarrow> prediction list \<Rightarrow> (int \<times> int) list \<times> (int \<times> int) \<Rightarrow> error + prediction" where
  "SplitRegionOperator_backward self data addition =
     (case addition of (all_start_points, start_point) \<Rightarrow>
        (case merge_tiles self None data all_start_points of
           None \<Rightarrow> Inl TypeError
         | Some all_predictions \<Rightarrow>
             Inr (all_predictions\<lparr>boxes := shift_coordinates (boxes all_predictions)
                    (real_of_int (fst start_point)) (real_of_int (snd start_point))\<rparr>)))"


subsection \<open>Sample data\<close>

definition two_boxes :: prediction where
  "two_boxes = \<lparr>boxes = [\<lparr>xmin = 0, ymin = 10, xmax = 5, ymax = 30\<rparr>,
                         \<lparr>xmin = 4, ymin = 0, xmax = 9, ymax = 10\<rparr>],
                labels = [1, 2], scores = [0.9, 0.8], box_height = None\<rparr>"

definition op512 :: SplitRegionOperator where
  "op512 = \<lparr>merge_iou_threshold = 0.3, image_size = 512\<rparr>"

text \<open>The predictions of two neighbouring tiles, cut at \<open>(0, 0)\<close> and \<open>(307, 0)\<close>: the first box
  of the second tile is the first box of the first tile, seen again.\<close>

definition tile_a :: prediction where
  "tile_a = \<lparr>boxes = [\<lparr>xmin = 300, ymin = 150, xmax = 340, ymax = 190\<rparr>,
                      \<lparr>xmin = 60, ymin = 150, xmax = 100, ymax = 190\<rparr>],
             labels = [1, 2], scores = [0.9, 0.8], box_height = None\<rparr>"

definition tile_b :: prediction where
  "tile_b = \<lparr>boxes = [\<lparr>xmin = - 7, ymin = 150, xmax = 33, ymax = 190\<rparr>,
                      \<lparr>xmin = 100, ymin = 200, xmax = 140, ymax = 240\<rparr>],
             labels = [1, 3], scores = [0.7, 0.6], box_height = None\<rparr>"

section \<open>Stack discipline\<close>


lemma bwd_ids_append: "bwd_ids (xs @ ys) = bwd_ids xs @ bwd_ids ys"
  by (induction xs rule: bwd_ids.induct) auto

lemma fwd_objs_append: "fwd_objs (xs @ ys) = fwd_objs xs @ fwd_objs ys"
  by (induction xs rule: fwd_objs.induct) auto












section \<open>The saved input of \<^verbatim>\<open>BranchingOperator\<close>\<close>

lemma frame_ok_refl: "frame_ok s s"
  unfolding frame_ok_def by (rule exI[of _ "[]"]) simp

lemma frame_ok_trans:
  assumes "frame_ok s s1" and "frame_ok s1 s2"
  shows "frame_ok s s2"
proof -
  from assms(1) obtain t1 where t1: "trace s1 = trace s @ t1"
    "\<forall>x. x \<notin> set (fwd_objs t1) \<longrightarrow> data_field s1 x = data_field s x"
    unfolding frame_ok_def by blast
  from assms(2) obtain t2 where t2: "trace s2 = trace s1 @ t2"
    "\<forall>x. x \<notin> set (fwd_objs t2) \<longrightarrow> data_field s2 x = data_field s1 x"
    unfolding frame_ok_def by blast
  have "trace s2 = trace s @ (t1 @ t2)" using t1(1) t2(1) by simp
  moreover have "\<forall>x. x \<notin> set (fwd_objs (t1 @ t2)) \<longrightarrow> data_field s2 x = data_field s x"
    using t1(2) t2(2) by (simp add: fwd_objs_append)
  ultimately show ?thesis unfolding frame_ok_def by blast
qed

lemma frame_ok_fwd:
  assumes "frame_ok s1 s2" and "trace s1 = trace s @ [Fwd k r a]"
    and "\<forall>x. x \<noteq> r \<longrightarrow> data_field s1 x = data_field s x"
  shows "frame_ok s s2"
proof -
  from assms(1) obtain t where t: "trace s2 = trace s1 @ t"
    "\<forall>x. x \<notin> set (fwd_objs t) \<longrightarrow> data_field s2 x = data_field s1 x"
    unfolding frame_ok_def by blast
  have "trace s2 = trace s @ (Fwd k r a # t)" using t(1) assms(2) by simp
  moreover have "\<forall>x. x \<notin> set (fwd_objs (Fwd k r a # t)) \<longrightarrow> data_field s2 x = data_field s x"
    using t(2) assms(3) by simp
  ultimately show ?thesis unfolding frame_ok_def by blast
qed

lemma frame_ok_bwd:
  assumes "frame_ok s s2"
  shows "frame_ok s (s2\<lparr>trace := trace s2 @ [Bwd k r a]\<rparr>)"
proof -
  from assms obtain t where t: "trace s2 = trace s @ t"
    "\<forall>x. x \<notin> set (fwd_objs t) \<longrightarrow> data_field s2 x = data_field s x"
    unfolding frame_ok_def by blast
  let ?s3 = "s2\<lparr>trace := trace s2 @ [Bwd k r a]\<rparr>"
  have "trace ?s3 = trace s @ (t @ [Bwd k r a])" using t(1) by simp
  moreover have "\<forall>x. x \<notin> set (fwd_objs (t @ [Bwd k r a])) \<longrightarrow> data_field ?s3 x = data_field s x"
    using t(2) by (simp add: fwd_objs_append)
  ultimately show ?thesis unfolding frame_ok_def by blast
qed

lemma call_frame:
  "call n H r d s = Some (Inr (v, s')) \<Longrightarrow> frame_ok s s'"
  "call_seq n H nxt ext items s = Some (Inr (vs, s'')) \<Longrightarrow> frame_ok s s''"
proof (induction n H r d s and n H nxt ext items s arbitrary: v s' and vs s''
    rule: call_call_seq.induct)
  case (1 H r d s)
  then show ?case by simp
next
  case (2 n H r d s)
  show ?case
  proof (cases "H r")
    case None
    with 2(6) show ?thesis by simp
  next
    case (Some ob)
    show ?thesis
    proof (cases ob)
      case FinalOperator
      with Some 2(6) show ?thesis by (simp add: frame_ok_refl)
    next
      case (ChainOperator fw bw nx)
      from 2(6) Some ChainOperator obtain d1 a d2 s2 where
        fw: "fw d = Inr (d1, a)" and
        dn: "call n H nx d1
               (s\<lparr>trace := trace s @ [Fwd (next_id s) r a], next_id := Suc (next_id s)\<rparr>)
             = Some (Inr (d2, s2))" and
        s': "s' = s2\<lparr>trace := trace s2 @ [Bwd (next_id s) r a]\<rparr>"
        by (auto split: sum.splits option.splits prod.splits)
      from 2(1)[OF Some ChainOperator fw refl dn]
      have "frame_ok (s\<lparr>trace := trace s @ [Fwd (next_id s) r a], next_id := Suc (next_id s)\<rparr>) s2" .
      then have "frame_ok s s2"
        by (rule frame_ok_fwd[where k = "next_id s" and r = r and a = a]) simp_all
      then show ?thesis unfolding s' by (rule frame_ok_bwd)
    next
      case (SplittingOperator nx)
      from 2(6) Some SplittingOperator obtain items rs where
        it: "iter d = Inr items" and
        cs: "call_seq n H nx False items s = Some (Inr (rs, s'))"
        by (auto split: sum.splits option.splits prod.splits)
      from 2(2)[OF Some SplittingOperator it cs] show ?thesis .
    next
      case (BatchingOperator nx b)
      from 2(6) Some BatchingOperator obtain batches rs where
        sp: "split_sequence d b = Some batches" and
        cs: "call_seq n H nx True batches s = Some (Inr (rs, s'))"
        by (auto split: sum.splits option.splits prod.splits)
      from 2(3)[OF Some BatchingOperator sp cs] show ?thesis .
    next
      case (BranchingOperator nx br)
      let ?s1 = "s\<lparr>data_field := (data_field s)(r := d),
                   trace := trace s @ [Fwd (next_id s) r VNone],
                   next_id := Suc (next_id s)\<rparr>"
      from 2(6) Some BranchingOperator obtain d2 s2 where
        dn: "call n H nx d ?s1 = Some (Inr (d2, s2))" and
        bc: "call n H br (VTuple [data_field s2 r, d2])
               (s2\<lparr>trace := trace s2 @ [Bwd (next_id s) r VNone]\<rparr>) = Some (Inr (v, s'))"
        by (auto split: sum.splits option.splits prod.splits)
      from 2(4)[OF Some BranchingOperator dn] have "frame_ok ?s1 s2" .
      then have "frame_ok s s2"
        by (rule frame_ok_fwd[where k = "next_id s" and r = r and a = VNone]) simp_all
      then have b: "frame_ok s (s2\<lparr>trace := trace s2 @ [Bwd (next_id s) r VNone]\<rparr>)"
        by (rule frame_ok_bwd)
      from 2(5)[OF Some BranchingOperator dn refl refl bc]
      have c: "frame_ok (s2\<lparr>trace := trace s2 @ [Bwd (next_id s) r VNone]\<rparr>) s'" .
      from b c show ?thesis by (rule frame_ok_trans)
    qed
  qed
next
  case (3 n H nxt ext s)
  then show ?case by (simp add: frame_ok_refl)
next
  case (4 n H nxt ext x xs s)
  from 4(3) obtain r s1 new rs where
    c: "call n H nxt x s = Some (Inr (r, s1))" and
    e: "(if ext then iter r else Inr [r]) = Inr new" and
    cs: "call_seq n H nxt ext xs s1 = Some (Inr (rs, s''))"
    by (auto split: sum.splits option.splits prod.splits if_splits)
  from 4(1)[OF c] have a: "frame_ok s s1" .
  from 4(2)[OF c refl refl e cs] have b: "frame_ok s1 s''" .
  from a b show ?case by (rule frame_ok_trans)
qed

lemma frame_ok_added:
  assumes "frame_ok s s'" and "x \<notin> set (fwd_objs (added s s'))"
  shows "data_field s' x = data_field s x"
  using assms unfolding frame_ok_def added_def by auto

text \<open>
  Claim C2, as amended. \<^verbatim>\<open>BranchingOperator\<close> keeps its input in the attribute \<^verbatim>\<open>self.data\<close>,
  not in the context it returns. An invocation whose downstream run does not run
  \<^verbatim>\<open>forward\<close> of the same object again hands its \<^verbatim>\<open>branch_operator\<close> its own input, whatever
  earlier invocations left in the attribute.
\<close>

theorem branching_joins_own_input:
  assumes "\<not> reentered n H r d s"
  shows "joins_saved_input n H r d s"
proof (cases "H r")
  case None
  then show ?thesis by (simp add: joins_saved_input_def)
next
  case (Some ob)
  show ?thesis
  proof (cases ob)
    case (BranchingOperator nxt br)
    show ?thesis
    proof (cases "call n H nxt d (entered r d s)")
      case None
      with Some BranchingOperator show ?thesis by (simp add: joins_saved_input_def)
    next
      case run: (Some res)
      show ?thesis
      proof (cases res)
        case (Inl e)
        with run Some BranchingOperator show ?thesis by (simp add: joins_saved_input_def)
      next
        case (Inr p)
        obtain d2 s2 where p: "p = (d2, s2)" by (cases p)
        from run Inr p have dn: "call n H nxt d (entered r d s) = Some (Inr (d2, s2))" by simp
        from assms Some BranchingOperator dn
        have nre: "r \<notin> set (fwd_objs (added (entered r d s) s2))"
          by (simp add: reentered_def)
        from call_frame(1)[OF dn] nre have "data_field s2 r = data_field (entered r d s) r"
          by (rule frame_ok_added)
        then have own: "data_field s2 r = d" by (simp add: entered_def)
        from dn have "call (Suc n) H r d s =
            call n H br (VTuple [data_field s2 r, d2]) (left r s s2)"
          using Some BranchingOperator by (simp add: entered_def left_def)
        with own Some BranchingOperator dn show ?thesis
          by (simp add: joins_saved_input_def)
      qed
    qed
  qed (use Some in \<open>simp_all add: joins_saved_input_def\<close>)
qed


lemma below_refl: "below rk c s s"
  unfolding below_def by (rule exI[of _ "[]"]) simp

lemma below_trans:
  assumes "below rk c s s1" and "below rk c s1 s2"
  shows "below rk c s s2"
proof -
  from assms(1) obtain t1 where t1: "trace s1 = trace s @ t1"
    "\<forall>x \<in> set (fwd_objs t1). rk x \<le> c"
    unfolding below_def by blast
  from assms(2) obtain t2 where t2: "trace s2 = trace s1 @ t2"
    "\<forall>x \<in> set (fwd_objs t2). rk x \<le> c"
    unfolding below_def by blast
  have "trace s2 = trace s @ (t1 @ t2)" using t1(1) t2(1) by simp
  moreover have "\<forall>x \<in> set (fwd_objs (t1 @ t2)). rk x \<le> c"
    using t1(2) t2(2) by (auto simp: fwd_objs_append)
  ultimately show ?thesis unfolding below_def by blast
qed

lemma below_mono: "below rk c s s' \<Longrightarrow> c \<le> c' \<Longrightarrow> below rk c' s s'"
  unfolding below_def by (meson order_trans)

lemma below_wrap:
  assumes "below rk c s1 s2" and "trace s1 = trace s @ [Fwd k r a]" and "rk r \<le> c"
  shows "below rk c s (s2\<lparr>trace := trace s2 @ [Bwd k' r' a']\<rparr>)"
proof -
  from assms(1) obtain t where t: "trace s2 = trace s1 @ t"
    "\<forall>x \<in> set (fwd_objs t). rk x \<le> c"
    unfolding below_def by blast
  let ?s3 = "s2\<lparr>trace := trace s2 @ [Bwd k' r' a']\<rparr>"
  have "trace ?s3 = trace s @ (Fwd k r a # t @ [Bwd k' r' a'])" using t(1) assms(2) by simp
  moreover have "\<forall>x \<in> set (fwd_objs (Fwd k r a # t @ [Bwd k' r' a'])). rk x \<le> c"
    using t(2) assms(3) by (auto simp: fwd_objs_append)
  ultimately show ?thesis unfolding below_def by blast
qed

lemma call_below:
  "ranked H rk \<Longrightarrow> call n H r d s = Some (Inr (v, s')) \<Longrightarrow> below rk (rk r) s s'"
  "ranked H rk \<Longrightarrow> call_seq n H nxt ext items s = Some (Inr (vs, s'')) \<Longrightarrow> below rk (rk nxt) s s''"
proof (induction n H r d s and n H nxt ext items s arbitrary: v s' and vs s''
    rule: call_call_seq.induct)
  case (1 H r d s)
  then show ?case by simp
next
  case (2 n H r d s)
  note rkd = \<open>ranked H rk\<close>
  note run = \<open>call (Suc n) H r d s = Some (Inr (v, s'))\<close>
  show ?case
  proof (cases "H r")
    case None
    with run show ?thesis by simp
  next
    case (Some ob)
    show ?thesis
    proof (cases ob)
      case FinalOperator
      with Some run show ?thesis by (simp add: below_refl)
    next
      case (ChainOperator fw bw nx)
      from rkd Some ChainOperator have lt: "rk nx < rk r"
        unfolding ranked_def by (auto dest: spec[of _ r])
      from run Some ChainOperator obtain d1 a d2 s2 where
        fw: "fw d = Inr (d1, a)" and
        dn: "call n H nx d1
               (s\<lparr>trace := trace s @ [Fwd (next_id s) r a], next_id := Suc (next_id s)\<rparr>)
             = Some (Inr (d2, s2))" and
        s': "s' = s2\<lparr>trace := trace s2 @ [Bwd (next_id s) r a]\<rparr>"
        by (auto split: sum.splits option.splits prod.splits)
      from 2(1)[OF Some ChainOperator fw refl rkd dn]
      have "below rk (rk nx) (s\<lparr>trace := trace s @ [Fwd (next_id s) r a], next_id := Suc (next_id s)\<rparr>) s2" .
      then have "below rk (rk r) (s\<lparr>trace := trace s @ [Fwd (next_id s) r a], next_id := Suc (next_id s)\<rparr>) s2"
        using lt by (simp add: below_mono)
      then show ?thesis unfolding s'
        by (rule below_wrap[where k = "next_id s" and r = r and a = a]) simp_all
    next
      case (SplittingOperator nx)
      from rkd Some SplittingOperator have lt: "rk nx < rk r"
        unfolding ranked_def by (auto dest: spec[of _ r])
      from run Some SplittingOperator obtain items rs where
        it: "iter d = Inr items" and
        cs: "call_seq n H nx False items s = Some (Inr (rs, s'))"
        by (auto split: sum.splits option.splits prod.splits)
      from 2(2)[OF Some SplittingOperator it rkd cs] lt show ?thesis
        by (simp add: below_mono)
    next
      case (BatchingOperator nx b)
      from rkd Some BatchingOperator have lt: "rk nx < rk r"
        unfolding ranked_def by (auto dest: spec[of _ r])
      from run Some BatchingOperator obtain batches rs where
        sp: "split_sequence d b = Some batches" and
        cs: "call_seq n H nx True batches s = Some (Inr (rs, s'))"
        by (auto split: sum.splits option.splits prod.splits)
      from 2(3)[OF Some BatchingOperator sp rkd cs] lt show ?thesis
        by (simp add: below_mono)
    next
      case (BranchingOperator nx br)
      from rkd Some BranchingOperator have lt: "rk nx < rk r" "rk br < rk r"
        unfolding ranked_def by (auto dest: spec[of _ r])
      let ?s1 = "s\<lparr>data_field := (data_field s)(r := d),
                   trace := trace s @ [Fwd (next_id s) r VNone],
                   next_id := Suc (next_id s)\<rparr>"
      from run Some BranchingOperator obtain d2 s2 where
        dn: "call n H nx d ?s1 = Some (Inr (d2, s2))" and
        bc: "call n H br (VTuple [data_field s2 r, d2])
               (s2\<lparr>trace := trace s2 @ [Bwd (next_id s) r VNone]\<rparr>) = Some (Inr (v, s'))"
        by (auto split: sum.splits option.splits prod.splits)
      from 2(4)[OF Some BranchingOperator rkd dn] have "below rk (rk nx) ?s1 s2" .
      then have "below rk (rk r) ?s1 s2" using lt(1) by (simp add: below_mono)
      then have b: "below rk (rk r) s (s2\<lparr>trace := trace s2 @ [Bwd (next_id s) r VNone]\<rparr>)"
        by (rule below_wrap[where k = "next_id s" and r = r and a = VNone]) simp_all
      from 2(5)[OF Some BranchingOperator dn refl refl rkd bc]
      have "below rk (rk br) (s2\<lparr>trace := trace s2 @ [Bwd (next_id s) r VNone]\<rparr>) s'" .
      then have c: "below rk (rk r) (s2\<lparr>trace := trace s2 @ [Bwd (next_id s) r VNone]\<rparr>) s'"
        using lt(2) by (simp add: below_mono)
      from b c show ?thesis by (rule below_trans)
    qed
  qed
next
  case (3 n H nxt ext s)
  then show ?case by (simp add: below_refl)
next
  case (4 n H nxt ext x xs s)
  note rkd = \<open>ranked H rk\<close>
  from 4(4) obtain r s1 new rs where
    c: "call n H nxt x s = Some (Inr (r, s1))" and
    e: "(if ext then iter r else Inr [r]) = Inr new" and
    cs: "call_seq n H nxt ext xs s1 = Some (Inr (rs, s''))"
    by (auto split: sum.splits option.splits prod.splits if_splits)
  from 4(1)[OF rkd c] have a: "below rk (rk nxt) s s1" .
  from 4(2)[OF c refl refl e rkd cs] have b: "below rk (rk nxt) s1 s''" .
  from a b show ?case by (rule below_trans)
qed

text \<open>In a heap without cycles no invocation is entered again, so there the amended
  claim holds of every invocation, repeated ones included.\<close>

lemma acyclic_not_reentered:
  assumes "ranked H rk"
  shows "\<not> reentered n H r d s"
proof
  assume re: "reentered n H r d s"
  then obtain nxt br where ob: "H r = Some (BranchingOperator nxt br)"
    by (auto simp: reentered_def split: option.splits operator.splits)
  with re obtain d2 s2 where dn: "call n H nxt d (entered r d s) = Some (Inr (d2, s2))"
    and mem: "r \<in> set (fwd_objs (added (entered r d s) s2))"
    by (auto simp: reentered_def split: option.splits sum.splits)
  from assms ob have lt: "rk nxt < rk r"
    unfolding ranked_def by (auto dest: spec[of _ r])
  from call_below(1)[OF assms dn] mem have "rk r \<le> rk nxt"
    unfolding below_def added_def by auto
  with lt show False by simp
qed

theorem branching_joins_own_input_witness:
  "\<not> reentered 2 branch_heap 1 (VAtom 8) used \<and> joins_saved_input 2 branch_heap 1 (VAtom 8) used \<and>
   map_option (map_sum id fst) (call 3 branch_heap 1 (VAtom 8) used) = Some (Inr (VTuple [VAtom 8, VList [VAtom 8]]))"
proof -
  have a: "\<not> reentered 2 branch_heap 1 (VAtom 8) used"
    by (simp add: reentered_def branch_heap_def eval_nat_numeral entered_def added_def used_def)
  have c: "map_option (map_sum id fst) (call 3 branch_heap 1 (VAtom 8) used) = Some (Inr (VTuple [VAtom 8, VList [VAtom 8]]))"
    by (simp add: branch_heap_def eval_nat_numeral used_def)
  from branching_joins_own_input[OF a] a c show ?thesis by blast
qed

text \<open>
  Claim C2 as stated fails under nested invocation. In \<open>loop_heap\<close> the outer invocation,
  on \<^verbatim>\<open>[[]]\<close>, is entered again on the item \<^verbatim>\<open>[]\<close>, which overwrites \<^verbatim>\<open>self.data\<close>; the outer
  \<^verbatim>\<open>backward\<close> then joins \<^verbatim>\<open>[]\<close>, the input of the inner invocation, with its downstream
  result.
\<close>

theorem branching_reentered_counterexample:
  "\<not> joins_saved_input 4 loop_heap 0 (VList [VList []]) fresh \<and>
   map_option (map_sum id fst) (call 5 loop_heap 0 (VList [VList []]) fresh)
     = Some (Inr (VTuple [VList [], VList [VTuple [VList [], VList []]]]))"
  by (simp add: joins_saved_input_def loop_heap_def eval_nat_numeral entered_def left_def fresh_def)
section \<open>Batching\<close>

lemma chop_concat: "0 < n \<Longrightarrow> concat (chop n xs) = xs"
  by (induction n xs rule: chop.induct) auto

lemma chop_length: "0 < n \<Longrightarrow> length (chop n xs) = (length xs + n - 1) div n"
proof (induction n xs rule: chop.induct)
  case (1 n)
  then show ?case by simp
next
  case (2 n x xs)
  show ?case
  proof (cases "length (x # xs) \<le> n")
    case True
    then have "drop n (x # xs) = []" by simp
    moreover from True 2(2) have "(length (x # xs) + n - 1) div n = 1"
      by (simp add: div_nat_eqI)
    ultimately show ?thesis using 2(2) by simp
  next
    case False
    then obtain m where m: "length (x # xs) = Suc m + n"
      by (metis Suc_diff_Suc add.commute le_add_diff_inverse2 less_or_eq_imp_le not_le_imp_less)
    have "(length (x # xs) + n - 1) div n = ((m + n) + n) div n"
      using m by simp
    also have "\<dots> = Suc ((m + n) div n)"
      using 2(2) by simp
    finally have "(length (x # xs) + n - 1) div n = Suc ((length (x # xs) - n + n - 1) div n)"
      using m by simp
    with 2 show ?thesis by simp
  qed
qed

lemma chop_sizes: "0 < n \<Longrightarrow> g \<in> set (chop n xs) \<Longrightarrow> g \<noteq> [] \<and> length g \<le> n"
  by (induction n xs rule: chop.induct) (auto split: if_splits)

lemma chop_full: "0 < n \<Longrightarrow> Suc i < length (chop n xs) \<Longrightarrow> length (chop n xs ! i) = n"
proof (induction n xs arbitrary: i rule: chop.induct)
  case (1 n)
  then show ?case by simp
next
  case (2 n x xs)
  show ?case
  proof (cases i)
    case 0
    with 2(2,3) have "chop n (drop n (x # xs)) \<noteq> []" by auto
    then have "drop n (x # xs) \<noteq> []" by auto
    then have "n < length (x # xs)" by simp
    with 0 2(2) show ?thesis by simp
  next
    case (Suc j)
    with 2 show ?thesis by simp
  qed
qed

lemma ceil_div_nat:
  assumes "0 < n"
  shows "int ((N + n - 1) div n) = \<lceil>real N / real n\<rceil>"
proof -
  define q where "q = (N + n - 1) div n"
  have lo: "q * n \<le> N + n - 1" unfolding q_def by simp
  have hi: "N + n - 1 < q * n + n"
    unfolding q_def using assms dividend_less_div_times[of n "N + n - 1"] by (simp add: mult.commute)
  from hi assms have up: "N \<le> q * n" by linarith
  from lo assms have dn: "q * n < N + n" by linarith
  have "real N \<le> real q * real n" using up by (metis of_nat_mult of_nat_le_iff)
  then have a: "real N / real n \<le> real_of_int (int q)" using assms by (simp add: field_simps)
  have "real q * real n < real N + real n" using dn by (metis of_nat_mult of_nat_add of_nat_less_iff)
  then have b: "real_of_int (int q) - 1 < real N / real n" using assms by (simp add: field_simps)
  from b a have "\<lceil>real N / real n\<rceil> = int q" by (rule ceiling_unique)
  then show ?thesis unfolding q_def by simp
qed

lemma call_seq_batches:
  assumes "\<forall>xs t. \<exists>t'. call n H nxt (VList xs) t = Some (Inr (VList (map f xs), t'))"
  shows "\<exists>s'. call_seq n H nxt True (map VList gs) s = Some (Inr (map f (concat gs), s'))"
proof (induction gs arbitrary: s)
  case Nil
  then show ?case by simp
next
  case (Cons g gs)
  from assms obtain s1 where c: "call n H nxt (VList g) s = Some (Inr (VList (map f g), s1))"
    by blast
  from Cons[of s1] obtain s2 where
    cs: "call_seq n H nxt True (map VList gs) s1 = Some (Inr (map f (concat gs), s2))"
    by blast
  from c cs show ?case by simp
qed

text \<open>
  Claim C6. Let the downstream pipeline be deterministic and indifferent to how its input
  is grouped: on every list it returns, item by item, what \<open>f\<close> gives (so \<open>[f x]\<close> on the
  single item \<open>x\<close>). Then for a batch size \<open>b \<ge> 1\<close> and a list of \<open>N\<close> items, the groups of
  \<^verbatim>\<open>split_sequence\<close> are contiguous and in order (their concatenation is the input), there
  are \<open>\<lceil>N / b\<rceil>\<close> of them, none is empty or larger than \<open>b\<close>, all but the last hold \<open>b\<close>
  items; the \<^verbatim>\<open>BatchingOperator\<close> runs the downstream once on each group, in order, and
  returns the concatenated results: \<open>N\<close> items, the \<open>i\<close>-th being what the downstream returns
  for the \<open>i\<close>-th item alone.
\<close>

theorem batching_matches_per_item:
  assumes "H r = Some (BatchingOperator nxt b)" and "1 \<le> b"
    and "\<forall>xs t. \<exists>t'. call n H nxt (VList xs) t = Some (Inr (VList (map f xs), t'))"
  shows "\<exists>groups out s'.
      split_sequence (VList data) b = Some (map VList groups) \<and>
      concat groups = data \<and>
      int (length groups) = \<lceil>real (length data) / real_of_int b\<rceil> \<and>
      (\<forall>g \<in> set groups. g \<noteq> [] \<and> int (length g) \<le> b) \<and>
      (\<forall>i. Suc i < length groups \<longrightarrow> int (length (groups ! i)) = b) \<and>
      call_seq n H nxt True (map VList groups) s = Some (Inr (out, s')) \<and>
      call (Suc n) H r (VList data) s = Some (Inr (VList out, s')) \<and>
      length out = length data \<and>
      (\<forall>i < length data. \<forall>t. \<exists>t'.
          call n H nxt (VList [data ! i]) t = Some (Inr (VList [out ! i], t')))"
proof -
  define k where "k = nat b"
  from assms(2) have k: "0 < k" "int k = b" unfolding k_def by simp_all
  define groups where "groups = chop k data"
  have sp: "split_sequence (VList data) b = Some (map VList groups)"
    using assms(2) unfolding split_sequence_def groups_def k_def by simp
  have cc: "concat groups = data" unfolding groups_def using k(1) by (rule chop_concat)
  have "int (length groups) = \<lceil>real (length data) / real k\<rceil>"
    unfolding groups_def chop_length[OF k(1)] using k(1) by (rule ceil_div_nat)
  then have ln: "int (length groups) = \<lceil>real (length data) / real_of_int b\<rceil>"
    using k(2) by (metis of_int_of_nat_eq)
  have sz: "\<forall>g \<in> set groups. g \<noteq> [] \<and> int (length g) \<le> b"
    unfolding groups_def using chop_sizes[OF k(1)] k(2) by fastforce
  have fl: "\<forall>i. Suc i < length groups \<longrightarrow> int (length (groups ! i)) = b"
    unfolding groups_def using chop_full[OF k(1)] k(2) by fastforce
  from call_seq_batches[OF assms(3), of groups s] obtain s' where
    cs: "call_seq n H nxt True (map VList groups) s = Some (Inr (map f (concat groups), s'))"
    by blast
  then have cs': "call_seq n H nxt True (map VList groups) s = Some (Inr (map f data, s'))"
    using cc by simp
  have run: "call (Suc n) H r (VList data) s = Some (Inr (VList (map f data), s'))"
    using assms(1) sp cs' by simp
  have each: "\<forall>i < length data. \<forall>t. \<exists>t'.
      call n H nxt (VList [data ! i]) t = Some (Inr (VList [map f data ! i], t'))"
  proof (intro allI impI)
    fix i t
    assume "i < length data"
    moreover from assms(3) obtain t' where
      "call n H nxt (VList [data ! i]) t = Some (Inr (VList (map f [data ! i]), t'))"
      by blast
    ultimately show "\<exists>t'. call n H nxt (VList [data ! i]) t = Some (Inr (VList [map f data ! i], t'))"
      by auto
  qed
  from sp cc ln sz fl cs' run each show ?thesis
    by (intro exI[of _ groups] exI[of _ "map f data"] exI[of _ s']) simp
qed

theorem batching_matches_per_item_witness:
  "\<exists>out s'. call 3 batch_heap 0 (VList [VAtom 1, VAtom 2, VAtom 3, VAtom 4, VAtom 5]) fresh
       = Some (Inr (VList out, s')) \<and>
     split_sequence (VList [VAtom 1, VAtom 2, VAtom 3, VAtom 4, VAtom 5]) 2
       = Some [VList [VAtom 1, VAtom 2], VList [VAtom 3, VAtom 4], VList [VAtom 5]] \<and>
     length out = 5"
proof -
  have ob: "batch_heap 0 = Some (BatchingOperator 1 2)"
    by (simp add: batch_heap_def)
  have inv: "\<forall>xs t. \<exists>t'. call 2 batch_heap 1 (VList xs) t
      = Some (Inr (VList (map (\<lambda>x. VTuple [x]) xs), t'))"
    by (simp add: batch_heap_def detect_def eval_nat_numeral)
  have sp: "split_sequence (VList [VAtom 1, VAtom 2, VAtom 3, VAtom 4, VAtom 5]) 2
       = Some [VList [VAtom 1, VAtom 2], VList [VAtom 3, VAtom 4], VList [VAtom 5]]"
    by (simp add: split_sequence_def eval_nat_numeral)
  from batching_matches_per_item[OF ob _ inv,
      of "[VAtom 1, VAtom 2, VAtom 3, VAtom 4, VAtom 5]" fresh]
  obtain out s' where
    "call (Suc 2) batch_heap 0 (VList [VAtom 1, VAtom 2, VAtom 3, VAtom 4, VAtom 5]) fresh
       = Some (Inr (VList out, s'))" and "length out = 5"
    by auto
  with sp show ?thesis by (auto simp: eval_nat_numeral)
qed
section \<open>The grid of \<^verbatim>\<open>SplitRegionOperator\<close>\<close>






section \<open>\<^verbatim>\<open>BoxHeightPredictionOperator.backward\<close>\<close>

text \<open>
  Claim C7. \<^verbatim>\<open>backward\<close> raises \<^verbatim>\<open>NotEnoughBoxes\<close> exactly when the prediction has fewer
  boxes than \<^verbatim>\<open>min_boxes_count\<close>. Otherwise it returns the prediction with \<^verbatim>\<open>box_height\<close>
  set to the mean of \<open>ymax - ymin\<close> over its boxes (stated for at least one box: with
  \<^verbatim>\<open>min_boxes_count \<le> 0\<close> and no box the mean is \<^verbatim>\<open>nan\<close>).
\<close>

theorem box_height_backward:
  "(BoxHeightPredictionOperator_backward self p a = Inl NotEnoughBoxes \<longleftrightarrow>
      int (length (boxes p)) < min_boxes_count self) \<and>
   (min_boxes_count self \<le> int (length (boxes p)) \<and> boxes p \<noteq> [] \<longrightarrow>
      BoxHeightPredictionOperator_backward self p a =
        Inr (p\<lparr>box_height :=
               Some (sum_list (map (\<lambda>b. ymax b - ymin b) (boxes p)) / real (length (boxes p)))\<rparr>))"
  by (auto simp: BoxHeightPredictionOperator_backward_def tensor_mean_def split: sum.splits)

theorem box_height_backward_witness:
  "BoxHeightPredictionOperator_backward \<lparr>min_boxes_count = 1\<rparr> two_boxes () =
     Inr (two_boxes\<lparr>box_height := Some 15\<rparr>) \<and>
   BoxHeightPredictionOperator_backward \<lparr>min_boxes_count = 3\<rparr> two_boxes () = Inl NotEnoughBoxes"
proof -
  have a: "BoxHeightPredictionOperator_backward \<lparr>min_boxes_count = 1\<rparr> two_boxes () =
     Inr (two_boxes\<lparr>box_height := Some 15\<rparr>)"
    using box_height_backward[of "\<lparr>min_boxes_count = 1\<rparr>" two_boxes "()"]
    by (simp add: two_boxes_def)
  have b: "BoxHeightPredictionOperator_backward \<lparr>min_boxes_count = 3\<rparr> two_boxes () = Inl NotEnoughBoxes"
    using box_height_backward[of "\<lparr>min_boxes_count = 3\<rparr>" two_boxes "()"]
    by (simp add: two_boxes_def)
  from a b show ?thesis by simp
qed

section \<open>\<^verbatim>\<open>LongRectangleCropOperator.backward\<close>\<close>

lemma zipped_box_heights_all:
  "map box_height data = map Some hs \<Longrightarrow> length sps = length data \<Longrightarrow>
   zipped_box_heights data sps = Inr hs"
proof (induction data sps arbitrary: hs rule: zipped_box_heights.induct)
  case (1 p ps sp sps)
  then obtain h hs' where hs: "hs = h # hs'" by (cases hs) auto
  with 1 show ?case by auto
qed auto

text \<open>
  Claim C8. Given one result per start point, each with a \<^verbatim>\<open>box_height\<close>, \<^verbatim>\<open>backward\<close> returns
  the arithmetic mean of these heights and nothing else: the result is a number fixed by
  the heights alone (no box, label or score of the results enters it), and it is the
  same whatever \<^verbatim>\<open>merge_iou_threshold\<close> the operator was built with.
\<close>

theorem long_crop_backward_mean:
  assumes "map box_height data = map Some hs" and "length sps = length data" and "data \<noteq> []"
  shows "LongRectangleCropOperator_backward self data sps = Inr (sum_list hs / real (length hs)) \<and>
         LongRectangleCropOperator_backward (self\<lparr>merge_iou_threshold := t\<rparr>) data sps =
           LongRectangleCropOperator_backward self data sps"
proof -
  from assms(1,3) have "hs \<noteq> []" by auto
  with zipped_box_heights_all[OF assms(1,2)] show ?thesis
    by (simp add: LongRectangleCropOperator_backward_def py_div_def)
qed

theorem long_crop_backward_mean_witness:
  "LongRectangleCropOperator_backward
      \<lparr>merge_iou_threshold = 0.3, ratio_threshold = 1.3, split_at = 0.6\<rparr>
      [two_boxes\<lparr>box_height := Some 10\<rparr>, two_boxes\<lparr>box_height := Some 20\<rparr>] [(0, 0), (800, 0)]
     = Inr 15 \<and>
   LongRectangleCropOperator_backward
      \<lparr>merge_iou_threshold = 0.9, ratio_threshold = 1.3, split_at = 0.6\<rparr>
      [two_boxes\<lparr>box_height := Some 10\<rparr>, two_boxes\<lparr>box_height := Some 20\<rparr>] [(0, 0), (800, 0)]
     = Inr 15"
  using long_crop_backward_mean[of
      "[two_boxes\<lparr>box_height := Some 10\<rparr>, two_boxes\<lparr>box_height := Some 20\<rparr>]" "[10, 20]"
      "[(0, 0), (800, 0)]"
      "\<lparr>merge_iou_threshold = 0.3, ratio_threshold = 1.3, split_at = 0.6\<rparr>" "0.9"]
  by simp
section \<open>\<^verbatim>\<open>ResizingImageOperator\<close>: there and back\<close>



section \<open>\<^verbatim>\<open>ImgRescaleOperator.forward\<close>\<close>



section \<open>\<^verbatim>\<open>SplitRegionOperator.forward\<close>\<close>














section \<open>\<^verbatim>\<open>SplitRegionOperator.backward\<close>\<close>

lemma length_shift_coordinates: "length (shift_coordinates bs dx dy) = length bs"
  by (simp add: shift_coordinates_def)

lemma length_detections: "length (detections p) \<le> length (boxes p)"
  by (simp add: detections_def)

lemma length_merge_prediction:
  "length (boxes (merge_prediction a p thr)) \<le> length (boxes a) + length (boxes p)"
proof -
  have "length (boxes (merge_prediction a p thr)) \<le> length (detections a) + length (detections p)"
    by (simp add: merge_prediction_def Let_def add_mono)
  also have "\<dots> \<le> length (boxes a) + length (boxes p)"
    by (intro add_mono length_detections)
  finally show ?thesis .
qed

lemma merge_tiles_foldl:
  "length data = length sps \<Longrightarrow>
   merge_tiles self (Some acc) data sps =
     Some (foldl (\<lambda>a p. merge_prediction a p (merge_iou_threshold self)) acc
             (map2 to_canvas data sps))"
proof (induction data arbitrary: acc sps)
  case Nil
  then show ?case by simp
next
  case (Cons p ps)
  then obtain sp sps' where sps: "sps = sp # sps'" by (cases sps) auto
  with Cons show ?case by simp
qed

lemma length_foldl_merge:
  "length (boxes (foldl (\<lambda>a p. merge_prediction a p thr) acc ps))
     \<le> length (boxes acc) + sum_list (map (\<lambda>p. length (boxes p)) ps)"
proof (induction ps arbitrary: acc)
  case Nil
  then show ?case by simp
next
  case (Cons p ps)
  have "length (boxes (foldl (\<lambda>a p. merge_prediction a p thr) (merge_prediction acc p thr) ps))
      \<le> length (boxes (merge_prediction acc p thr)) + sum_list (map (\<lambda>p. length (boxes p)) ps)"
    by (rule Cons.IH)
  also have "\<dots> \<le> (length (boxes acc) + length (boxes p)) + sum_list (map (\<lambda>p. length (boxes p)) ps)"
    by (intro add_mono length_merge_prediction order_refl)
  finally show ?case by simp
qed

lemma boxes_map2_to_canvas:
  "length data = length sps \<Longrightarrow>
   map (\<lambda>p. length (boxes p)) (map2 to_canvas data sps) = map (\<lambda>p. length (boxes p)) data"
proof (induction data arbitrary: sps)
  case Nil
  then show ?case by simp
next
  case (Cons p ps)
  then obtain sp sps' where sps: "sps = sp # sps'" by (cases sps) auto
  with Cons show ?case by (simp add: to_canvas_def length_shift_coordinates)
qed

text \<open>
  Claim C5. Given one prediction per saved tile offset, and at least one, \<^verbatim>\<open>backward\<close>
  shifts the boxes of every tile by minus its offset, merges the shifted sets one after
  the other from the left (the first with the second, the result with the third, and so
  on) with \<^verbatim>\<open>merge_prediction\<close> at the operator's threshold, and shifts the boxes of the
  result by the offset of the pasted image; the result has at most as many boxes as the
  tiles have together. What \<^verbatim>\<open>merge_prediction\<close> keeps of two sets is \<open>merge_prediction_policy\<close>
  below.
\<close>

theorem split_region_backward_merge:
  assumes "length data = length all_start_points" and "data \<noteq> []"
  shows "\<exists>merged.
     merged = foldl (\<lambda>acc p. merge_prediction acc p (merge_iou_threshold self))
                (to_canvas (hd data) (hd all_start_points))
                (map2 to_canvas (tl data) (tl all_start_points)) \<and>
     SplitRegionOperator_backward self data (all_start_points, start_point) =
       Inr (merged\<lparr>boxes := shift_coordinates (boxes merged)
              (real_of_int (fst start_point)) (real_of_int (snd start_point))\<rparr>) \<and>
     length (boxes merged) \<le> sum_list (map (\<lambda>p. length (boxes p)) data)"
proof -
  from assms obtain p ps where d: "data = p # ps" by (cases data) auto
  with assms(1) obtain sp sps where s: "all_start_points = sp # sps" by (cases all_start_points) auto
  from assms(1) d s have len: "length ps = length sps" by simp
  define merged where "merged = foldl (\<lambda>acc p. merge_prediction acc p (merge_iou_threshold self))
      (to_canvas p sp) (map2 to_canvas ps sps)"
  have mt: "merge_tiles self None data all_start_points = Some merged"
    unfolding d s merged_def using merge_tiles_foldl[OF len] by simp
  have bw: "SplitRegionOperator_backward self data (all_start_points, start_point) =
       Inr (merged\<lparr>boxes := shift_coordinates (boxes merged)
              (real_of_int (fst start_point)) (real_of_int (snd start_point))\<rparr>)"
    using mt by (simp add: SplitRegionOperator_backward_def)
  have "length (boxes merged)
      \<le> length (boxes (to_canvas p sp)) + sum_list (map (\<lambda>p. length (boxes p)) (map2 to_canvas ps sps))"
    unfolding merged_def by (rule length_foldl_merge)
  also have "\<dots> = length (boxes p) + sum_list (map (\<lambda>p. length (boxes p)) ps)"
    using boxes_map2_to_canvas[OF len] by (simp add: to_canvas_def length_shift_coordinates)
  finally have cnt: "length (boxes merged) \<le> sum_list (map (\<lambda>p. length (boxes p)) data)"
    using d by simp
  from bw cnt show ?thesis unfolding merged_def d s by simp
qed

theorem split_region_backward_merge_witness:
  "SplitRegionOperator_backward op512 [tile_a, tile_b] ([(0, 0), (307, 0)], (51, 106)) =
     Inr \<lparr>boxes = [\<lparr>xmin = 249, ymin = 44, xmax = 289, ymax = 84\<rparr>,
                   \<lparr>xmin = 9, ymin = 44, xmax = 49, ymax = 84\<rparr>,
                   \<lparr>xmin = 356, ymin = 94, xmax = 396, ymax = 134\<rparr>],
          labels = [1, 2, 3], scores = [0.9, 0.8, 0.6], box_height = None\<rparr> \<and>
   (\<exists>merged.
      SplitRegionOperator_backward op512 [tile_a, tile_b] ([(0, 0), (307, 0)], (51, 106)) =
        Inr (merged\<lparr>boxes := shift_coordinates (boxes merged) 51 106\<rparr>) \<and>
      length (boxes merged) \<le> 4)"
proof -
  have ev: "SplitRegionOperator_backward op512 [tile_a, tile_b] ([(0, 0), (307, 0)], (51, 106)) =
     Inr \<lparr>boxes = [\<lparr>xmin = 249, ymin = 44, xmax = 289, ymax = 84\<rparr>,
                   \<lparr>xmin = 9, ymin = 44, xmax = 49, ymax = 84\<rparr>,
                   \<lparr>xmin = 356, ymin = 94, xmax = 396, ymax = 134\<rparr>],
          labels = [1, 2, 3], scores = [0.9, 0.8, 0.6], box_height = None\<rparr>"
    by (simp add: SplitRegionOperator_backward_def op512_def tile_a_def tile_b_def to_canvas_def
        shift_coordinates_def merge_prediction_def detections_def survives_first_def
        survives_second_def iou_exceeds_def intersection_def area_def score_def Let_def)
  have h1: "length [tile_a, tile_b] = length [(0, 0), (307, 0) :: int \<times> int]" by simp
  have h2: "[tile_a, tile_b] \<noteq> []" by simp
  have cnt: "sum_list (map (\<lambda>p. length (boxes p)) [tile_a, tile_b]) = 4"
    by (simp add: tile_a_def tile_b_def)
  from split_region_backward_merge[OF h1 h2, of op512 "(51, 106)"] obtain merged where
    m: "SplitRegionOperator_backward op512 [tile_a, tile_b] ([(0, 0), (307, 0)], (51, 106)) =
          Inr (merged\<lparr>boxes := shift_coordinates (boxes merged)
                 (real_of_int (fst (51 :: int, 106 :: int)))
                 (real_of_int (snd (51 :: int, 106 :: int)))\<rparr>)"
      "length (boxes merged) \<le> sum_list (map (\<lambda>p. length (boxes p)) [tile_a, tile_b])"
    by blast
  from m(1) have m1: "SplitRegionOperator_backward op512 [tile_a, tile_b] ([(0, 0), (307, 0)], (51, 106)) =
          Inr (merged\<lparr>boxes := shift_coordinates (boxes merged) 51 106\<rparr>)"
    by (simp only: fst_conv snd_conv of_int_numeral)
  from m(2) cnt have m2: "length (boxes merged) \<le> 4" by (simp only:)
  from ev m1 m2 show ?thesis by blast
qed

lemma zip_unzip3:
  "zip (map fst xs) (zip (map (\<lambda>x. fst (snd x)) xs) (map (\<lambda>x. snd (snd x)) xs)) = xs"
  by (induction xs) auto

lemma merge_prediction_policy:
  "detections (merge_prediction p1 p2 thr) =
     filter (survives_first thr (detections p2)) (detections p1) @
     filter (survives_second thr (detections p1)) (detections p2)"
  by (simp add: merge_prediction_def Let_def comp_def zip_unzip3 detections_def[of "_\<lparr>boxes := _, labels := _, scores := _\<rparr>"])

lemma merge_prediction_drops:
  assumes "e \<in> set others" and "iou_exceeds thr (fst d) (fst e)"
  shows "score d < score e \<Longrightarrow> \<not> survives_first thr others d"
    and "iou_exceeds thr (fst e) (fst d) \<Longrightarrow> score d \<le> score e \<Longrightarrow> \<not> survives_second thr others d"
  using assms by (auto simp: survives_first_def survives_second_def list_ex_iff)

lemma split_region_backward_no_tile:
  "SplitRegionOperator_backward self [] addition = Inl TypeError"
  "SplitRegionOperator_backward self data ([], start_point) = Inl TypeError"
  by (cases addition; cases data; simp add: SplitRegionOperator_backward_def)+


end
